theory Spec2Isabelle
  imports Complex_Main "HOL-Library.AList"
begin

section \<open>Strings\<close>

text \<open>
  A Python \<open>str\<close> is modelled as a \<open>string\<close> whose characters are the code points
  below 256. The three string methods the recognizer calls are written out for that
  range: \<open>str.isspace\<close>, \<open>str.strip\<close> and \<open>str.lower\<close>.
\<close>

definition isspace :: "char \<Rightarrow> bool" where
  "isspace c =
     (let n = (of_char c :: nat)
      in (9 \<le> n \<and> n \<le> 13) \<or> (28 \<le> n \<and> n \<le> 32) \<or> n = 133 \<or> n = 160)"

definition str_strip :: "string \<Rightarrow> string" where
  "str_strip s = rev (dropWhile isspace (rev (dropWhile isspace s)))"

definition lower_char :: "char \<Rightarrow> char" where
  "lower_char c =
     (let n = (of_char c :: nat)
      in if (65 \<le> n \<and> n \<le> 90) \<or> (192 \<le> n \<and> n \<le> 222 \<and> n \<noteq> 215)
         then char_of (n + 32) else c)"

definition str_lower :: "string \<Rightarrow> string" where
  "str_lower s = map lower_char s"

definition startswith :: "string \<Rightarrow> string \<Rightarrow> bool" where
  "startswith s p = (take (length p) s = p)"

section \<open>The file system\<close>

text \<open>
  The recognizer reads its pattern and allowlist files through \<open>pathlib\<close>, \<open>open\<close> and
  \<open>csv.DictReader\<close>. What these return is a parameter of the model: whether a path
  exists, its suffix, the lines that iterating over the opened text file yields, and for
  a tabular file the header (\<open>reader.fieldnames\<close>, \<open>None\<close> for a file without a
  first row) and the rows as dictionaries from column name to cell, a cell that a short
  row leaves out being \<open>None\<close>. Files that exist are taken to be readable UTF-8.
\<close>

record filesystem =
  path_exists :: "string \<Rightarrow> bool"
  path_suffix :: "string \<Rightarrow> string"
  read_lines :: "string \<Rightarrow> string list"
  csv_fieldnames :: "string \<Rightarrow> string list option"
  csv_rows :: "string \<Rightarrow> (string \<rightharpoonup> string) list"

text \<open>Every touch of the file system is logged, in order.\<close>

datatype access = PathExists string | OpenFile string

text \<open>\<open>FileSpec = Union[str, Tuple[str, str]]\<close>\<close>

datatype file_spec = Str string | Tuple string string

text \<open>
  The exceptions raised in \<open>recognizer.py\<close>:
  \<open>ValueError("patterns_files must be non-empty")\<close>,
  \<open>FileNotFoundError\<close> with the path, and the \<open>ValueError\<close> of a missing column,
  which carries the column asked for, the path and the columns available.
\<close>

datatype error =
    ValueError_patterns_files_empty
  | FileNotFoundError string
  | ValueError_column_not_found string string "string list"

type_synonym 'a io = "access list \<Rightarrow> (error + 'a) \<times> access list"

section \<open>Loading\<close>

text \<open>The loop of \<open>_load_txt\<close> over the lines of the file.\<close>

fun load_txt_lines :: "string list \<Rightarrow> string list \<Rightarrow> string list" where
  "load_txt_lines [] patterns = patterns"
| "load_txt_lines (line # rest) patterns =
     (let line' = str_strip line
      in if line' \<noteq> [] \<and> \<not> startswith line' ''#''
         then load_txt_lines rest (patterns @ [line'])
         else load_txt_lines rest patterns)"

definition load_txt :: "filesystem \<Rightarrow> string \<Rightarrow> string list io" where
  "load_txt fs path tr =
     (Inr (load_txt_lines (read_lines fs path) []), tr @ [OpenFile path])"

text \<open>The loop of \<open>_load_csv\<close> over the rows of the reader.\<close>

fun load_csv_rows :: "string \<Rightarrow> (string \<rightharpoonup> string) list \<Rightarrow> string list \<Rightarrow> string list" where
  "load_csv_rows column [] patterns = patterns"
| "load_csv_rows column (row # rest) patterns =
     (case row column of
        None \<Rightarrow> load_csv_rows column rest patterns
      | Some v \<Rightarrow>
          if v \<noteq> [] \<and> str_strip v \<noteq> []
          then load_csv_rows column rest (patterns @ [str_strip v])
          else load_csv_rows column rest patterns)"

definition load_csv :: "filesystem \<Rightarrow> string \<Rightarrow> string \<Rightarrow> string list io" where
  "load_csv fs path column tr =
     (let tr' = tr @ [OpenFile path]
      in case csv_fieldnames fs path of
           None \<Rightarrow> (Inl (ValueError_column_not_found column path []), tr')
         | Some names \<Rightarrow>
             if column \<notin> set names
             then (Inl (ValueError_column_not_found column path names), tr')
             else (Inr (load_csv_rows column (csv_rows fs path) []), tr'))"

text \<open>\<open>_load_file\<close>; \<open>csv_column\<close> is \<open>self.csv_column\<close>.\<close>

definition load_file :: "filesystem \<Rightarrow> string \<Rightarrow> file_spec \<Rightarrow> string list io" where
  "load_file fs csv_column file_spec tr =
     (let (path, column) =
            (case file_spec of Tuple p c \<Rightarrow> (p, c) | Str p \<Rightarrow> (p, csv_column));
          tr' = tr @ [PathExists path]
      in if \<not> path_exists fs path then (Inl (FileNotFoundError path), tr')
         else if str_lower (path_suffix fs path) = ''.csv'' then load_csv fs path column tr'
         else load_txt fs path tr')"

text \<open>
  \<open>list(dict.fromkeys(patterns))\<close>: the keys are entered one by one, a key already
  present keeps its place, and the list of the dictionary is its keys in insertion order.
\<close>

definition dict_fromkeys :: "'a list \<Rightarrow> 'a list" where
  "dict_fromkeys xs = foldl (\<lambda>keys x. if x \<in> set keys then keys else keys @ [x]) [] xs"

text \<open>The loop of \<open>_load_patterns\<close>: an exception of \<open>_load_file\<close> ends it.\<close>

fun load_patterns_loop ::
  "filesystem \<Rightarrow> string \<Rightarrow> file_spec list \<Rightarrow> string list \<Rightarrow> string list io" where
  "load_patterns_loop fs csv_column [] patterns tr = (Inr patterns, tr)"
| "load_patterns_loop fs csv_column (file_spec # rest) patterns tr =
     (case load_file fs csv_column file_spec tr of
        (Inl e, tr') \<Rightarrow> (Inl e, tr')
      | (Inr loaded, tr') \<Rightarrow> load_patterns_loop fs csv_column rest (patterns @ loaded) tr')"

definition load_patterns :: "filesystem \<Rightarrow> string \<Rightarrow> file_spec list \<Rightarrow> string list io" where
  "load_patterns fs csv_column files tr =
     (case load_patterns_loop fs csv_column files [] tr of
        (Inl e, tr') \<Rightarrow> (Inl e, tr')
      | (Inr patterns, tr') \<Rightarrow> (Inr (dict_fromkeys patterns), tr'))"

text \<open>The loop of \<open>_load_allowlist\<close>, which collects a set.\<close>

fun load_allowlist_loop ::
  "filesystem \<Rightarrow> string \<Rightarrow> file_spec list \<Rightarrow> string set \<Rightarrow> string set io" where
  "load_allowlist_loop fs csv_column [] allowlist tr = (Inr allowlist, tr)"
| "load_allowlist_loop fs csv_column (file_spec # rest) allowlist tr =
     (case load_file fs csv_column file_spec tr of
        (Inl e, tr') \<Rightarrow> (Inl e, tr')
      | (Inr loaded, tr') \<Rightarrow>
          load_allowlist_loop fs csv_column rest (allowlist \<union> set loaded) tr')"

definition load_allowlist :: "filesystem \<Rightarrow> string \<Rightarrow> file_spec list \<Rightarrow> string set io" where
  "load_allowlist fs csv_column files tr = load_allowlist_loop fs csv_column files {} tr"

section \<open>The recognizer\<close>

text \<open>
  The \<open>KeywordProcessor\<close> of the keyword-matching library is held as what the
  recognizer hands to it: the flag given to its constructor and the keywords given to
  \<open>add_keywords_from_list\<close>, in order.
\<close>

record kp_state =
  kp_case_sensitive :: bool
  kp_keywords :: "string list"

definition KeywordProcessor :: "bool \<Rightarrow> kp_state" where
  "KeywordProcessor cs = \<lparr>kp_case_sensitive = cs, kp_keywords = []\<rparr>"

definition add_keywords_from_list :: "kp_state \<Rightarrow> string list \<Rightarrow> kp_state" where
  "add_keywords_from_list kp keyword_list = kp\<lparr>kp_keywords := kp_keywords kp @ keyword_list\<rparr>"

record recognizer =
  supported_entities :: "string list"
  supported_language :: string
  entity_type :: string
  csv_column :: string
  case_sensitive :: bool
  keyword_processor :: kp_state

text \<open>The allowlist filter of \<open>__init__\<close> (its local \<open>filtered_patterns\<close>).\<close>

definition filtered_patterns :: "bool \<Rightarrow> string list \<Rightarrow> string set \<Rightarrow> string list" where
  "filtered_patterns cs patterns allowlist =
     (if cs then filter (\<lambda>p. p \<notin> allowlist) patterns
      else (let allowlist_lower = str_lower ` allowlist
            in filter (\<lambda>p. str_lower p \<notin> allowlist_lower) patterns))"

text \<open>\<open>__init__\<close>: the allowlist is loaded before the patterns.\<close>

definition init ::
  "filesystem \<Rightarrow> file_spec list \<Rightarrow> string \<Rightarrow> file_spec list option \<Rightarrow> string \<Rightarrow> bool
     \<Rightarrow> recognizer io" where
  "init fs patterns_files etype allowlist_files column cs tr =
     (if patterns_files = [] then (Inl ValueError_patterns_files_empty, tr)
      else
        case load_allowlist fs column (case allowlist_files of None \<Rightarrow> [] | Some fl \<Rightarrow> fl) tr of
          (Inl e, tr1) \<Rightarrow> (Inl e, tr1)
        | (Inr allowlist, tr1) \<Rightarrow>
            (case load_patterns fs column patterns_files tr1 of
               (Inl e, tr2) \<Rightarrow> (Inl e, tr2)
             | (Inr patterns, tr2) \<Rightarrow>
                 (Inr \<lparr>supported_entities = [etype],
                       supported_language = ''en'',
                       entity_type = etype,
                       csv_column = column,
                       case_sensitive = cs,
                       keyword_processor =
                         add_keywords_from_list (KeywordProcessor cs)
                           (filtered_patterns cs patterns allowlist)\<rparr>,
                  tr2)))"

record recognizer_result =
  res_entity_type :: string
  res_start :: nat
  res_end :: nat
  res_score :: real

text \<open>
  \<open>analyze\<close>, with \<open>extract_keywords(text, span_info=True)\<close> of the library as the
  parameter \<open>extract\<close>: it yields triples of keyword, start and end.
\<close>

definition analyze_with ::
  "(kp_state \<Rightarrow> string \<Rightarrow> (string \<times> nat \<times> nat) list)
     \<Rightarrow> recognizer \<Rightarrow> string \<Rightarrow> string list \<Rightarrow> 'n \<Rightarrow> recognizer_result list" where
  "analyze_with extract self text entities nlp_artifacts =
     map (\<lambda>(name, start, end).
            \<lparr>res_entity_type = entity_type self, res_start = start, res_end = end,
             res_score = 1\<rparr>)
         (extract (keyword_processor self) text)"

section \<open>The scanner\<close>

text \<open>
  Modelled from the spec: the character classification of the scan. The scan is done by
  \<open>KeywordProcessor.extract_keywords\<close> of the keyword-matching library, whose code is
  not part of the repository; the specification (4.2) calls a character a word character
  when it is alphanumeric or an underscore. The letters and digits are the ASCII ones.
\<close>

definition is_word_char :: "char \<Rightarrow> bool" where
  "is_word_char c =
     (let n = (of_char c :: nat)
      in (48 \<le> n \<and> n \<le> 57) \<or> (65 \<le> n \<and> n \<le> 90) \<or> (97 \<le> n \<and> n \<le> 122) \<or> n = 95)"

text \<open>
  Modelled from the spec: the folding of a character to the canonical case (4.2), missing
  with the library. It is the identity in case-sensitive mode and the lower case of the
  character otherwise.
\<close>

definition fold_char :: "bool \<Rightarrow> char \<Rightarrow> char" where
  "fold_char cs c = (if cs then c else lower_char c)"

text \<open>
  Modelled from the spec: the automaton of the library, missing from the repository. The
  specification (4.2, 9) describes a trie with a pattern-end marker at each node; the
  marker names the pattern that ends there.
\<close>

datatype trie = Node "string option" "(char \<times> trie) list"

text \<open>
  Modelled from the spec: the insertion of a pattern into the trie, character by character
  (4.2), missing with the library. \<open>key\<close> is the folded pattern; the first pattern that
  reaches a node keeps its marker.
\<close>

fun trie_insert :: "string \<Rightarrow> string \<Rightarrow> trie \<Rightarrow> trie" where
  "trie_insert [] p (Node m ch) = Node (case m of None \<Rightarrow> Some p | Some q \<Rightarrow> Some q) ch"
| "trie_insert (c # key) p (Node m ch) =
     Node m (AList.update c
               (trie_insert key p (case map_of ch c of None \<Rightarrow> Node None [] | Some t \<Rightarrow> t))
               ch)"

text \<open>
  Modelled from the spec: the index that the build of the scanner constructs from the
  pattern list and the case-sensitivity flag (4.2), missing with the library: every
  pattern is inserted under its folded characters. Whether construction fails is decided
  by \<open>__init__\<close> above.
\<close>

definition build_trie :: "bool \<Rightarrow> string list \<Rightarrow> trie" where
  "build_trie cs patterns =
     foldl (\<lambda>t p. trie_insert (map (fold_char cs) p) p t) (Node None []) patterns"

text \<open>
  Modelled from the spec: the word boundary on the right of a match (4.2), missing with
  the library: the text ends there or goes on with a character that is not a word
  character. \<open>rest\<close> is the text after the match.
\<close>

definition right_boundary :: "string \<Rightarrow> bool" where
  "right_boundary rest = (case rest of [] \<Rightarrow> True | x # _ \<Rightarrow> \<not> is_word_char x)"

text \<open>
  Modelled from the spec: the word boundary on the left of a match (4.2), missing with
  the library. \<open>prev\<close> is the character before the match, \<open>None\<close> at the start of the
  text.
\<close>

definition left_boundary :: "char option \<Rightarrow> bool" where
  "left_boundary prev = (case prev of None \<Rightarrow> True | Some x \<Rightarrow> \<not> is_word_char x)"

text \<open>
  Modelled from the spec: the longest-match tracking of the scan pass (4.2, 9), missing
  with the library. From a node reached after \<open>n\<close> characters the walk follows the folded
  characters of the text; \<open>best\<close> is the last pattern end passed at a right word boundary,
  with its length.
\<close>

fun walk :: "bool \<Rightarrow> trie \<Rightarrow> string \<Rightarrow> nat \<Rightarrow> (string \<times> nat) option \<Rightarrow> (string \<times> nat) option" where
  "walk cs (Node m ch) xs n best =
     (let best' = (case m of
                     None \<Rightarrow> best
                   | Some p \<Rightarrow> if right_boundary xs then Some (p, n) else best)
      in case xs of
           [] \<Rightarrow> best'
         | x # rest \<Rightarrow>
             (case map_of ch (fold_char cs x) of
                None \<Rightarrow> best'
              | Some t \<Rightarrow> walk cs t rest (Suc n) best'))"

text \<open>
  Modelled from the spec: the scan pass (4.2), missing with the library. It goes through
  the start positions from left to right; at a start on a left word boundary it reports
  the longest valid match that begins there, as the triple of pattern, start and end.
\<close>

fun scan_from :: "bool \<Rightarrow> trie \<Rightarrow> string \<Rightarrow> nat \<Rightarrow> char option \<Rightarrow> (string \<times> nat \<times> nat) list" where
  "scan_from cs t [] i prev = []"
| "scan_from cs t (x # rest) i prev =
     (let found = (if left_boundary prev
                   then (case walk cs t (x # rest) 0 None of
                           None \<Rightarrow> []
                         | Some (p, n) \<Rightarrow> [(p, i, i + n)])
                   else [])
      in found @ scan_from cs t rest (Suc i) (Some x))"

text \<open>
  Modelled from the spec: the scan operation of the scanner (4.2), missing with the
  library: the pass over the whole text, from offset 0, with no character before it.
\<close>

definition scan :: "bool \<Rightarrow> trie \<Rightarrow> string \<Rightarrow> (string \<times> nat \<times> nat) list" where
  "scan cs t text = scan_from cs t text 0 None"

text \<open>
  Modelled from the spec: \<open>extract_keywords(text, span_info=True)\<close> of the library, not
  part of the repository, as the scan of 4.2 over the keywords the recognizer added.
\<close>

definition extract_keywords :: "kp_state \<Rightarrow> string \<Rightarrow> (string \<times> nat \<times> nat) list" where
  "extract_keywords kp text =
     scan (kp_case_sensitive kp) (build_trie (kp_case_sensitive kp) (kp_keywords kp)) text"

text \<open>\<open>analyze\<close> of the recognizer, on that scan.\<close>

definition analyze :: "recognizer \<Rightarrow> string \<Rightarrow> string list \<Rightarrow> 'n \<Rightarrow> recognizer_result list" where
  "analyze = analyze_with extract_keywords"

section \<open>Notions of the specification\<close>

text \<open>The lookup of a folded key in the trie: the marker of the node the key leads to.\<close>

fun trie_lookup :: "trie \<Rightarrow> string \<Rightarrow> string option" where
  "trie_lookup (Node m ch) [] = m"
| "trie_lookup (Node m ch) (c # key) =
     (case map_of ch c of None \<Rightarrow> None | Some t \<Rightarrow> trie_lookup t key)"

text \<open>
  Pattern \<open>p\<close> occurs in \<open>text\<close> at offset \<open>i\<close>, up to the folding of the mode; the
  character before offset \<open>i\<close>, and the character at offset \<open>e\<close>, is absent or not a word
  character; an occurrence is valid when it has both boundaries.
\<close>

definition occurs_at :: "bool \<Rightarrow> string \<Rightarrow> nat \<Rightarrow> string \<Rightarrow> bool" where
  "occurs_at cs text i p =
     (i + length p \<le> length text \<and>
      map (fold_char cs) (take (length p) (drop i text)) = map (fold_char cs) p)"

definition left_ok :: "string \<Rightarrow> nat \<Rightarrow> bool" where
  "left_ok text i = (i = 0 \<or> \<not> is_word_char (text ! (i - 1)))"

definition right_ok :: "string \<Rightarrow> nat \<Rightarrow> bool" where
  "right_ok text e = (length text \<le> e \<or> \<not> is_word_char (text ! e))"

definition valid_at :: "bool \<Rightarrow> string \<Rightarrow> nat \<Rightarrow> string \<Rightarrow> bool" where
  "valid_at cs text i p = (occurs_at cs text i p \<and> left_ok text i \<and> right_ok text (i + length p))"

text \<open>Keeping the first occurrence of each element of a list.\<close>

fun keep_first :: "'a list \<Rightarrow> 'a list" where
  "keep_first [] = []"
| "keep_first (x # xs) = x # keep_first (filter (\<lambda>y. y \<noteq> x) xs)"

text \<open>The comparison key of the allowlist filter.\<close>

definition comparison_key :: "bool \<Rightarrow> string \<Rightarrow> string" where
  "comparison_key cs s = (if cs then s else str_lower s)"

text \<open>
  A file system that holds line-oriented text files only, given as pairs of path and
  lines, as the temporary files of the test suite are.
\<close>

definition text_files :: "(string \<times> string list) list \<Rightarrow> filesystem" where
  "text_files files =
     \<lparr>path_exists = (\<lambda>p. p \<in> fst ` set files),
      path_suffix = (\<lambda>p. ''.txt''),
      read_lines = (\<lambda>p. case map_of files p of None \<Rightarrow> [] | Some ls \<Rightarrow> ls),
      csv_fieldnames = (\<lambda>p. None),
      csv_rows = (\<lambda>p. [])\<rparr>"

text \<open>
  Three such file systems: a pattern file that names Apple twice and Orange, with an
  allowlist file that names apple; a pattern file whose only pattern is on the allowlist
  up to case; and two pattern files that share a pattern and differ in case on another.
\<close>

definition fruit_files :: filesystem where
  "fruit_files =
     text_files [(''patterns.txt'', [''Apple\<newline>'', ''Apple\<newline>'', ''Orange\<newline>'']),
                 (''allow.txt'', [''apple\<newline>''])]"

definition allowlisted_files :: filesystem where
  "allowlisted_files =
     text_files [(''patterns.txt'', [''Apple\<newline>'']), (''allow.txt'', [''apple\<newline>''])]"

definition two_source_files :: filesystem where
  "two_source_files =
     text_files [(''first.txt'', [''Apple\<newline>'', ''  apple  \<newline>'']),
                 (''second.txt'', [''# fruit\<newline>'', ''Apple\<newline>'', ''Banana\<newline>''])]"

text \<open>
  The recognizer that \<open>__init__\<close> returns for an entity type, a default column, the
  case-sensitivity flag and the filtered patterns.
\<close>

definition recognizer_with :: "string \<Rightarrow> string \<Rightarrow> bool \<Rightarrow> string list \<Rightarrow> recognizer" where
  "recognizer_with etype column cs keywords =
     \<lparr>supported_entities = [etype], supported_language = ''en'', entity_type = etype,
      csv_column = column, case_sensitive = cs,
      keyword_processor = \<lparr>kp_case_sensitive = cs, kp_keywords = keywords\<rparr>\<rparr>"

section \<open>Auxiliary facts\<close>

subsection \<open>Stripped entries\<close>

lemma str_strip_idem: "str_strip (str_strip s) = str_strip s"
proof -
  define a where "a = dropWhile isspace s"
  define b where "b = rev (dropWhile isspace (rev a))"
  have "rev a = takeWhile isspace (rev a) @ dropWhile isspace (rev a)" by simp
  then have "rev (rev a) = rev (takeWhile isspace (rev a) @ dropWhile isspace (rev a))" by (rule arg_cong)
  then have ab: "a = b @ rev (takeWhile isspace (rev a))"
    unfolding b_def by (simp only: rev_append rev_rev_ident)
  have 1: "dropWhile isspace b = b"
  proof (cases b)
    case Nil
    then show ?thesis by simp
  next
    case (Cons x xs)
    with ab have "a = x # (xs @ rev (takeWhile isspace (rev a)))" by simp
    then have "a \<noteq> []" "hd a = x" by (metis list.distinct(1), metis list.sel(1))
    then have "\<not> isspace x" unfolding a_def using hd_dropWhile by metis
    with Cons show ?thesis by simp
  qed
  have 2: "rev (dropWhile isspace (rev b)) = b"
    unfolding b_def by simp
  have 3: "str_strip s = b" by (simp add: str_strip_def a_def b_def)
  have "str_strip b = rev (dropWhile isspace (rev (dropWhile isspace b)))" by (simp add: str_strip_def)
  also have "\<dots> = b" by (simp only: 1 2)
  finally show ?thesis by (simp only: 3)
qed

lemma load_txt_lines_trimmed:
  "e \<in> set (load_txt_lines ls acc) \<Longrightarrow> e \<in> set acc \<or> (str_strip e = e \<and> e \<noteq> [])"
proof (induction ls arbitrary: acc)
  case Nil
  then show ?case by simp
next
  case (Cons l ls)
  show ?case
  proof (cases "str_strip l \<noteq> [] \<and> \<not> startswith (str_strip l) ''#''")
    case True
    with Cons.prems have "e \<in> set (load_txt_lines ls (acc @ [str_strip l]))" by (simp add: Let_def)
    from Cons.IH [OF this] True show ?thesis by (auto simp: str_strip_idem)
  next
    case False
    with Cons.prems have "e \<in> set (load_txt_lines ls acc)" by (auto simp: Let_def)
    from Cons.IH [OF this] show ?thesis .
  qed
qed

lemma load_csv_rows_trimmed:
  "e \<in> set (load_csv_rows c rows acc) \<Longrightarrow> e \<in> set acc \<or> (str_strip e = e \<and> e \<noteq> [])"
proof (induction rows arbitrary: acc)
  case Nil
  then show ?case by simp
next
  case (Cons row rows)
  show ?case
  proof (cases "row c")
    case None
    with Cons.prems have "e \<in> set (load_csv_rows c rows acc)" by simp
    from Cons.IH [OF this] show ?thesis .
  next
    case (Some v)
    show ?thesis
    proof (cases "v \<noteq> [] \<and> str_strip v \<noteq> []")
      case True
      with Some Cons.prems have "e \<in> set (load_csv_rows c rows (acc @ [str_strip v]))" by simp
      from Cons.IH [OF this] True show ?thesis by (auto simp: str_strip_idem)
    next
      case False
      with Some Cons.prems have "e \<in> set (load_csv_rows c rows acc)" by auto
      from Cons.IH [OF this] show ?thesis .
    qed
  qed
qed

subsection \<open>The trie\<close>

lemma trie_lookup_empty: "trie_lookup (Node None []) k = None"
  by (cases k) simp_all

lemma trie_lookup_insert:
  "trie_lookup (trie_insert key p t) k =
     (if k = key then (case trie_lookup t key of None \<Rightarrow> Some p | Some q \<Rightarrow> Some q)
      else trie_lookup t k)"
proof (induction key p t arbitrary: k rule: trie_insert.induct)
  case (1 p m ch)
  then show ?case by (cases k) (simp_all split: option.split)
next
  case (2 c key p m ch)
  show ?case
  proof (cases k)
    case Nil
    then show ?thesis by simp
  next
    case (Cons d k')
    then show ?thesis
      using "2.IH" [of k']
      by (auto simp: update_conv' trie_lookup_empty split: option.splits)
  qed
qed

lemma trie_lookup_foldl_insert:
  "trie_lookup (foldl (\<lambda>t p. trie_insert (f p) p t) t ps) k =
     (case trie_lookup t k of Some q \<Rightarrow> Some q | None \<Rightarrow> find (\<lambda>p. f p = k) ps)"
  by (induction ps arbitrary: t) (auto simp: trie_lookup_insert split: option.splits)

lemma trie_lookup_build:
  "trie_lookup (build_trie cs ps) k = find (\<lambda>p. map (fold_char cs) p = k) ps"
  by (simp add: build_trie_def trie_lookup_foldl_insert trie_lookup_empty)

subsection \<open>The walk\<close>

lemma walk_Some: "\<exists>r. walk cs t xs n (Some b) = Some r"
proof (induction xs arbitrary: t n b)
  case Nil
  then show ?case by (cases t) (simp split: option.split)
next
  case (Cons x xs)
  then show ?case by (cases t) (auto simp: Let_def split: option.split)
qed

lemma walk_sound:
  "walk cs t xs n best = Some (p, k) \<Longrightarrow>
     best = Some (p, k) \<or>
     (\<exists>m\<le>length xs. k = n + m \<and> trie_lookup t (map (fold_char cs) (take m xs)) = Some p \<and>
        right_boundary (drop m xs))"
proof (induction xs arbitrary: t n best)
  case Nil
  then show ?case by (cases t) (auto split: option.splits if_splits)
next
  case (Cons x xs)
  obtain m ch where t: "t = Node m ch" by (cases t)
  define best' where "best' = (case m of None \<Rightarrow> best | Some q \<Rightarrow> if right_boundary (x # xs) then Some (q, n) else best)"
  have b: "best' = best \<or> (\<exists>q. m = Some q \<and> right_boundary (x # xs) \<and> best' = Some (q, n))"
    by (auto simp: best'_def split: option.splits)
  show ?case
  proof (cases "map_of ch (fold_char cs x)")
    case None
    with Cons.prems t have "best' = Some (p, k)" by (simp add: best'_def)
    with b t show ?thesis by force
  next
    case (Some t')
    with Cons.prems t have w: "walk cs t' xs (Suc n) best' = Some (p, k)" by (simp add: best'_def)
    from Cons.IH [OF w] show ?thesis
    proof
      assume "best' = Some (p, k)"
      with b t show ?thesis by force
    next
      assume "\<exists>j\<le>length xs. k = Suc n + j \<and> trie_lookup t' (map (fold_char cs) (take j xs)) = Some p \<and> right_boundary (drop j xs)"
      then obtain j where j: "j \<le> length xs" "k = Suc n + j" "trie_lookup t' (map (fold_char cs) (take j xs)) = Some p" "right_boundary (drop j xs)" by blast
      have "Suc j \<le> length (x # xs) \<and> k = n + Suc j \<and> trie_lookup t (map (fold_char cs) (take (Suc j) (x # xs))) = Some p \<and> right_boundary (drop (Suc j) (x # xs))"
        using j t Some by simp
      then show ?thesis by blast
    qed
  qed
qed

lemma walk_max:
  "m \<le> length xs \<Longrightarrow> trie_lookup t (map (fold_char cs) (take m xs)) = Some q \<Longrightarrow>
   right_boundary (drop m xs) \<Longrightarrow> \<exists>p k. walk cs t xs n best = Some (p, k) \<and> n + m \<le> k"
proof (induction xs arbitrary: t n best m)
  case Nil
  then show ?case by (cases t) auto
next
  case (Cons x xs)
  obtain mk ch where t: "t = Node mk ch" by (cases t)
  show ?case
  proof (cases m)
    case 0
    with Cons.prems t have mk: "mk = Some q" and rb: "right_boundary (x # xs)" by simp_all
    show ?thesis
    proof (cases "map_of ch (fold_char cs x)")
      case None
      with t mk rb 0 show ?thesis by simp
    next
      case (Some t')
      obtain r where r: "walk cs t' xs (Suc n) (Some (q, n)) = Some r"
        using walk_Some by blast
      obtain p k where pk: "r = (p, k)" by (cases r)
      from walk_sound [OF r [unfolded pk]] have "n \<le> k" by auto
      with t mk rb 0 Some r pk show ?thesis by simp
    qed
  next
    case (Suc j)
    with Cons.prems t obtain t' where t': "map_of ch (fold_char cs x) = Some t'"
      and l: "trie_lookup t' (map (fold_char cs) (take j xs)) = Some q"
      by (auto split: option.splits)
    from Cons.prems Suc have "j \<le> length xs" "right_boundary (drop j xs)" by simp_all
    from Cons.IH [OF this(1) l this(2)] obtain p k where
      "walk cs t' xs (Suc n) (case mk of None \<Rightarrow> best | Some q \<Rightarrow> if right_boundary (x # xs) then Some (q, n) else best) = Some (p, k) \<and> Suc n + j \<le> k"
      by blast
    with t t' Suc show ?thesis by simp
  qed
qed

lemma walk_root_iff:
  "walk cs t xs 0 None = Some (p, k) \<longleftrightarrow>
     k \<le> length xs \<and> trie_lookup t (map (fold_char cs) (take k xs)) = Some p \<and>
     right_boundary (drop k xs) \<and>
     (\<forall>m\<le>length xs. trie_lookup t (map (fold_char cs) (take m xs)) \<noteq> None \<and> right_boundary (drop m xs)
        \<longrightarrow> m \<le> k)"
  (is "?L \<longleftrightarrow> ?R")
proof
  assume L: ?L
  from walk_sound [OF L] have s: "k \<le> length xs" "trie_lookup t (map (fold_char cs) (take k xs)) = Some p"
    "right_boundary (drop k xs)" by auto
  have "m \<le> k" if "m \<le> length xs" "trie_lookup t (map (fold_char cs) (take m xs)) \<noteq> None" "right_boundary (drop m xs)" for m
  proof -
    from that(2) obtain q where "trie_lookup t (map (fold_char cs) (take m xs)) = Some q" by blast
    from walk_max [OF that(1) this that(3), of 0 None] L show ?thesis by simp
  qed
  with s show ?R by blast
next
  assume R: ?R
  then obtain p' k' where w: "walk cs t xs 0 None = Some (p', k')" and le: "k \<le> k'"
    using walk_max [of k xs t cs p 0 None] by auto
  from walk_sound [OF w] have s: "k' \<le> length xs" "trie_lookup t (map (fold_char cs) (take k' xs)) = Some p'"
    "right_boundary (drop k' xs)" by auto
  with R have "k' \<le> k" by blast
  with le have "k' = k" by simp
  with s R have "p' = p" by simp
  with w \<open>k' = k\<close> show ?L by simp
qed

subsection \<open>Loading a source\<close>

lemma load_file_Inr:
  "load_file fs col f tr = (Inr es, tr') \<Longrightarrow>
     (\<exists>p c. es = load_csv_rows c (csv_rows fs p) []) \<or> (\<exists>p. es = load_txt_lines (read_lines fs p) [])"
  by (cases f) (auto simp: load_file_def load_csv_def load_txt_def Let_def split: if_splits option.splits)

lemma load_file_trimmed:
  assumes "load_file fs col f tr = (Inr es, tr')" and "e \<in> set es"
  shows "str_strip e = e \<and> e \<noteq> []"
  using load_file_Inr [OF assms(1)] assms(2) load_txt_lines_trimmed [of e _ "[]"]
    load_csv_rows_trimmed [of e _ _ "[]"]
  by auto

lemma fst_load_file: "fst (load_file fs col f tr) = fst (load_file fs col f [])"
  by (cases f) (simp_all add: load_file_def load_csv_def load_txt_def Let_def split: option.split)

lemma load_file_not_empty_error:
  "fst (load_file fs col f tr) \<noteq> Inl ValueError_patterns_files_empty"
  by (cases f) (simp_all add: load_file_def load_csv_def load_txt_def Let_def split: option.split)

subsection \<open>Deduplication\<close>

lemma dict_fromkeys_foldl:
  "foldl (\<lambda>keys x. if x \<in> set keys then keys else keys @ [x]) acc xs =
     acc @ keep_first (filter (\<lambda>x. x \<notin> set acc) xs)"
proof (induction xs arbitrary: acc)
  case Nil
  then show ?case by simp
next
  case (Cons x xs)
  have "filter (\<lambda>y. y \<noteq> x) (filter (\<lambda>y. y \<notin> set acc) xs) = filter (\<lambda>y. y \<notin> set (acc @ [x])) xs"
    by (induction xs) auto
  with Cons show ?case by simp
qed

lemma dict_fromkeys_keep_first: "dict_fromkeys xs = keep_first xs"
  by (simp add: dict_fromkeys_def dict_fromkeys_foldl)

lemma set_keep_first: "set (keep_first xs) = set xs"
  by (induction xs rule: keep_first.induct) auto

lemma distinct_keep_first: "distinct (keep_first xs)"
  by (induction xs rule: keep_first.induct) (auto simp: set_keep_first)

subsection \<open>The loader loops\<close>

lemma load_patterns_loop_concat:
  "load_patterns_loop fs col files acc tr = (Inr ps, tr') \<Longrightarrow>
     ps = acc @ concat (map (\<lambda>f. projr (fst (load_file fs col f []))) files) \<and>
     (\<forall>f\<in>set files. \<not> isl (fst (load_file fs col f [])))"
proof (induction files arbitrary: acc tr)
  case Nil
  then show ?case by simp
next
  case (Cons f files)
  obtain r tr1 where lf: "load_file fs col f tr = (r, tr1)" by (cases "load_file fs col f tr")
  with Cons.prems obtain es where r: "r = Inr es" by (cases r) auto
  with lf Cons.prems have "load_patterns_loop fs col files (acc @ es) tr1 = (Inr ps, tr')" by simp
  from Cons.IH [OF this] have ih: "ps = (acc @ es) @ concat (map (\<lambda>f. projr (fst (load_file fs col f []))) files)"
    "\<forall>f\<in>set files. \<not> isl (fst (load_file fs col f []))" by simp_all
  have "fst (load_file fs col f []) = Inr es"
    using fst_load_file [of fs col f tr] lf r by simp
  with ih show ?case by simp
qed

lemma load_patterns_loop_not_empty_error:
  "fst (load_patterns_loop fs col files acc tr) \<noteq> Inl ValueError_patterns_files_empty"
proof (induction files arbitrary: acc tr)
  case Nil
  then show ?case by simp
next
  case (Cons f files)
  obtain r tr1 where lf: "load_file fs col f tr = (r, tr1)" by (cases "load_file fs col f tr")
  show ?case
  proof (cases r)
    case (Inl e)
    with lf load_file_not_empty_error [of fs col f tr] show ?thesis by simp
  next
    case (Inr es)
    with lf Cons.IH [of "acc @ es" tr1] show ?thesis by simp
  qed
qed

lemma load_allowlist_loop_not_empty_error:
  "fst (load_allowlist_loop fs col files acc tr) \<noteq> Inl ValueError_patterns_files_empty"
proof (induction files arbitrary: acc tr)
  case Nil
  then show ?case by simp
next
  case (Cons f files)
  obtain r tr1 where lf: "load_file fs col f tr = (r, tr1)" by (cases "load_file fs col f tr")
  show ?case
  proof (cases r)
    case (Inl e)
    with lf load_file_not_empty_error [of fs col f tr] show ?thesis by simp
  next
    case (Inr es)
    with lf Cons.IH [of "acc \<union> set es" tr1] show ?thesis by simp
  qed
qed

lemma filtered_patterns_key:
  "filtered_patterns cs ps al = filter (\<lambda>p. comparison_key cs p \<notin> comparison_key cs ` al) ps"
  by (simp add: filtered_patterns_def comparison_key_def Let_def)

subsection \<open>Construction on the example file systems\<close>

lemma fruit_allowlist:
  "load_allowlist fruit_files ''name'' [Str ''allow.txt''] [] =
   (Inr {''apple''}, [PathExists ''allow.txt'', OpenFile ''allow.txt''])"
proof -
  have "load_file fruit_files ''name'' (Str ''allow.txt'') [] =
          (Inr [''apple''], [PathExists ''allow.txt'', OpenFile ''allow.txt''])"
    by code_simp
  then show ?thesis by (simp add: load_allowlist_def)
qed

lemma fruit_patterns:
  "load_patterns fruit_files ''name'' [Str ''patterns.txt'']
     [PathExists ''allow.txt'', OpenFile ''allow.txt''] =
   (Inr [''Apple'', ''Orange''],
    [PathExists ''allow.txt'', OpenFile ''allow.txt'',
     PathExists ''patterns.txt'', OpenFile ''patterns.txt''])"
  by code_simp

lemma fruit_filtered: "filtered_patterns False [''Apple'', ''Orange''] {''apple''} = [''Orange'']"
  by code_simp

lemma fruit_init:
  "init fruit_files [Str ''patterns.txt''] ''FRUIT'' (Some [Str ''allow.txt'']) ''name'' False [] =
   (Inr \<lparr>supported_entities = [''FRUIT''], supported_language = ''en'', entity_type = ''FRUIT'',
         csv_column = ''name'', case_sensitive = False,
         keyword_processor = \<lparr>kp_case_sensitive = False, kp_keywords = [''Orange'']\<rparr>\<rparr>,
    [PathExists ''allow.txt'', OpenFile ''allow.txt'',
     PathExists ''patterns.txt'', OpenFile ''patterns.txt''])"
  by (simp add: init_def fruit_allowlist fruit_patterns fruit_filtered KeywordProcessor_def
      add_keywords_from_list_def)

lemma allowlisted_allowlist:
  "load_allowlist allowlisted_files ''name'' [Str ''allow.txt''] [] =
   (Inr {''apple''}, [PathExists ''allow.txt'', OpenFile ''allow.txt''])"
proof -
  have "load_file allowlisted_files ''name'' (Str ''allow.txt'') [] =
          (Inr [''apple''], [PathExists ''allow.txt'', OpenFile ''allow.txt''])"
    by code_simp
  then show ?thesis by (simp add: load_allowlist_def)
qed

lemma allowlisted_patterns:
  "load_patterns allowlisted_files ''name'' [Str ''patterns.txt'']
     [PathExists ''allow.txt'', OpenFile ''allow.txt''] =
   (Inr [''Apple''],
    [PathExists ''allow.txt'', OpenFile ''allow.txt'',
     PathExists ''patterns.txt'', OpenFile ''patterns.txt''])"
  by code_simp

lemma allowlisted_filtered: "filtered_patterns False [''Apple''] {''apple''} = []"
  by code_simp

lemma two_source_patterns:
  "load_patterns two_source_files ''name'' [Str ''first.txt'', Str ''second.txt''] [] =
   (Inr [''Apple'', ''apple'', ''Banana''],
    [PathExists ''first.txt'', OpenFile ''first.txt'',
     PathExists ''second.txt'', OpenFile ''second.txt''])"
  by code_simp

lemma two_source_filtered:
  "filtered_patterns False [''Apple'', ''apple'', ''Banana''] {} = [''Apple'', ''apple'', ''Banana'']"
  by (simp add: filtered_patterns_def)

lemma two_source_init:
  "init two_source_files [Str ''first.txt'', Str ''second.txt''] ''FRUIT'' None ''name'' False [] =
   (Inr \<lparr>supported_entities = [''FRUIT''], supported_language = ''en'', entity_type = ''FRUIT'',
         csv_column = ''name'', case_sensitive = False,
         keyword_processor =
           \<lparr>kp_case_sensitive = False, kp_keywords = [''Apple'', ''apple'', ''Banana'']\<rparr>\<rparr>,
    [PathExists ''first.txt'', OpenFile ''first.txt'',
     PathExists ''second.txt'', OpenFile ''second.txt''])"
  by (simp add: init_def load_allowlist_def two_source_patterns two_source_filtered
      KeywordProcessor_def add_keywords_from_list_def)

subsection \<open>Construction\<close>

lemma init_Inr:
  assumes "init fs pf et af col cs tr = (Inr r, tr')"
  shows "\<exists>al ps tr1.
           load_allowlist fs col (case af of None \<Rightarrow> [] | Some fl \<Rightarrow> fl) tr = (Inr al, tr1) \<and>
           load_patterns fs col pf tr1 = (Inr ps, tr') \<and>
           kp_keywords (keyword_processor r) = filtered_patterns cs ps al"
proof -
  from assms have ne: "pf \<noteq> []" by (auto simp: init_def)
  obtain ra tr1 where la: "load_allowlist fs col (case af of None \<Rightarrow> [] | Some fl \<Rightarrow> fl) tr = (ra, tr1)"
    by (cases "load_allowlist fs col (case af of None \<Rightarrow> [] | Some fl \<Rightarrow> fl) tr")
  with assms ne obtain al where ra: "ra = Inr al" by (cases ra) (auto simp: init_def)
  obtain rp tr2 where lp: "load_patterns fs col pf tr1 = (rp, tr2)"
    by (cases "load_patterns fs col pf tr1")
  with assms ne la ra obtain ps where rp: "rp = Inr ps" by (cases rp) (auto simp: init_def)
  from assms ne la ra lp rp have "tr' = tr2" "kp_keywords (keyword_processor r) = filtered_patterns cs ps al"
    by (auto simp: init_def KeywordProcessor_def add_keywords_from_list_def)
  with la ra lp rp show ?thesis by blast
qed

lemma init_success:
  assumes "pf \<noteq> []"
    and "load_allowlist fs col (case af of None \<Rightarrow> [] | Some fl \<Rightarrow> fl) tr = (Inr al, tr1)"
    and "load_patterns fs col pf tr1 = (Inr ps, tr2)"
  shows "init fs pf et af col cs tr =
     (Inr \<lparr>supported_entities = [et], supported_language = ''en'', entity_type = et,
           csv_column = col, case_sensitive = cs,
           keyword_processor =
             \<lparr>kp_case_sensitive = cs, kp_keywords = filtered_patterns cs ps al\<rparr>\<rparr>, tr2)"
  using assms by (simp add: init_def KeywordProcessor_def add_keywords_from_list_def)

lemma init_empty_error_iff:
  "fst (init fs pf et af col cs tr) = Inl ValueError_patterns_files_empty \<longleftrightarrow> pf = []"
proof
  assume "pf = []"
  then show "fst (init fs pf et af col cs tr) = Inl ValueError_patterns_files_empty"
    by (simp add: init_def)
next
  assume e: "fst (init fs pf et af col cs tr) = Inl ValueError_patterns_files_empty"
  show "pf = []"
  proof (rule ccontr)
    assume ne: "pf \<noteq> []"
    obtain ra tr1 where la: "load_allowlist fs col (case af of None \<Rightarrow> [] | Some fl \<Rightarrow> fl) tr = (ra, tr1)"
      by (cases "load_allowlist fs col (case af of None \<Rightarrow> [] | Some fl \<Rightarrow> fl) tr")
    have na: "ra \<noteq> Inl ValueError_patterns_files_empty"
      using load_allowlist_loop_not_empty_error [of fs col "case af of None \<Rightarrow> [] | Some fl \<Rightarrow> fl" "{}" tr] la
      by (simp add: load_allowlist_def)
    show False
    proof (cases ra)
      case (Inl x)
      with e ne la na show ?thesis by (simp add: init_def)
    next
      case (Inr al)
      obtain rp tr2 where lp: "load_patterns fs col pf tr1 = (rp, tr2)"
        by (cases "load_patterns fs col pf tr1")
      have np: "rp \<noteq> Inl ValueError_patterns_files_empty"
        using load_patterns_loop_not_empty_error [of fs col pf "[]" tr1] lp
        by (auto simp: load_patterns_def split: prod.splits sum.splits)
      from e ne la Inr lp np show ?thesis by (cases rp) (simp_all add: init_def)
    qed
  qed
qed

lemma load_patterns_Inr:
  assumes "load_patterns fs col files tr = (Inr ps, tr')"
  shows "ps = keep_first (concat (map (\<lambda>f. projr (fst (load_file fs col f []))) files))"
    and "distinct ps"
    and "\<forall>e\<in>set ps. str_strip e = e \<and> e \<noteq> []"
proof -
  obtain r tr1 where l: "load_patterns_loop fs col files [] tr = (r, tr1)"
    by (cases "load_patterns_loop fs col files [] tr")
  with assms obtain raw where r: "r = Inr raw" and ps: "ps = dict_fromkeys raw"
    by (cases r) (auto simp: load_patterns_def)
  from load_patterns_loop_concat [OF l [unfolded r]]
  have raw: "raw = concat (map (\<lambda>f. projr (fst (load_file fs col f []))) files)"
    and ok: "\<forall>f\<in>set files. \<not> isl (fst (load_file fs col f []))" by simp_all
  from ps raw show "ps = keep_first (concat (map (\<lambda>f. projr (fst (load_file fs col f []))) files))"
    by (simp add: dict_fromkeys_keep_first)
  from ps show "distinct ps" by (simp add: dict_fromkeys_keep_first distinct_keep_first)
  show "\<forall>e\<in>set ps. str_strip e = e \<and> e \<noteq> []"
  proof
    fix e assume "e \<in> set ps"
    with ps raw obtain f where f: "f \<in> set files" and e: "e \<in> set (projr (fst (load_file fs col f [])))"
      by (auto simp: dict_fromkeys_keep_first set_keep_first)
    from ok f obtain es where es: "fst (load_file fs col f []) = Inr es"
      by (cases "fst (load_file fs col f [])") auto
    then have "load_file fs col f [] = (Inr es, snd (load_file fs col f []))"
      by (metis prod.collapse)
    from load_file_trimmed [OF this] e es show "str_strip e = e \<and> e \<noteq> []" by simp
  qed
qed

subsection \<open>The scan pass\<close>

lemma right_boundary_drop: "right_boundary (drop j xs) = right_ok xs j"
proof (cases "j < length xs")
  case True
  then have "drop j xs = xs ! j # drop (Suc j) xs" by (simp add: Cons_nth_drop_Suc)
  with True show ?thesis by (simp add: right_boundary_def right_ok_def)
next
  case False
  then show ?thesis by (simp add: right_boundary_def right_ok_def)
qed

lemma left_boundary_prev:
  "left_boundary (if i = 0 then None else Some (xs ! (i - 1))) = left_ok xs i"
  by (simp add: left_boundary_def left_ok_def)

lemma scan_from_Cons:
  "scan_from cs t (x # xs) i prev =
     (if left_boundary prev
      then (case walk cs t (x # xs) 0 None of None \<Rightarrow> [] | Some (p, n) \<Rightarrow> [(p, i, i + n)])
      else []) @ scan_from cs t xs (Suc i) (Some x)"
  by (simp only: scan_from.simps Let_def)

lemma found_mem:
  "(p, s, e) \<in> set (if b then (case w of None \<Rightarrow> [] | Some (q, n) \<Rightarrow> [(q, i, i + n)]) else []) \<longleftrightarrow>
     b \<and> s = i \<and> i \<le> e \<and> w = Some (p, e - (i::nat))"
proof (cases b)
  case False
  have "(p, s, e) \<notin> set []" by simp
  with False show ?thesis by (simp only: if_False) simp
next
  case True
  show ?thesis
  proof (cases w)
    case None
    have "(p, s, e) \<notin> set []" by simp
    with True None show ?thesis by (simp only: if_True option.case) simp
  next
    case (Some a)
    obtain q k where a: "a = (q, k)" by (cases a)
    have "(p, s, e) \<in> set [(q, i, i + k)] \<longleftrightarrow> s = i \<and> i \<le> e \<and> (q, k) = (p, e - i)"
      by auto
    with True Some a show ?thesis by (simp only: if_True option.case prod.case) simp
  qed
qed

lemma scan_from_mem:
  "i \<le> length xs \<Longrightarrow>
   (p, s, e) \<in> set (scan_from cs t (drop i xs) i (if i = 0 then None else Some (xs ! (i - 1)))) \<longleftrightarrow>
     i \<le> s \<and> s < length xs \<and> left_ok xs s \<and> s \<le> e \<and>
     walk cs t (drop s xs) 0 None = Some (p, e - s)"
proof (induction "length xs - i" arbitrary: i)
  case 0
  then show ?case by simp
next
  case (Suc n)
  then have lt: "i < length xs" by simp
  then have d: "drop i xs = xs ! i # drop (Suc i) xs" by (simp add: Cons_nth_drop_Suc)
  from Suc have n: "n = length xs - Suc i" and le: "Suc i \<le> length xs" by simp_all
  have ih: "(p, s, e) \<in> set (scan_from cs t (drop (Suc i) xs) (Suc i) (Some (xs ! i))) \<longleftrightarrow>
     Suc i \<le> s \<and> s < length xs \<and> left_ok xs s \<and> s \<le> e \<and>
     walk cs t (drop s xs) 0 None = Some (p, e - s)"
    using Suc.hyps(1) [OF n le] by simp
  have "scan_from cs t (drop i xs) i (if i = 0 then None else Some (xs ! (i - 1))) =
          (if left_ok xs i
           then (case walk cs t (drop i xs) 0 None of None \<Rightarrow> [] | Some (q, k) \<Rightarrow> [(q, i, i + k)])
           else []) @ scan_from cs t (drop (Suc i) xs) (Suc i) (Some (xs ! i))"
    using scan_from_Cons [of cs t "xs ! i" "drop (Suc i) xs" i "if i = 0 then None else Some (xs ! (i - 1))"]
    by (simp only: d [symmetric] left_boundary_prev)
  then have "(p, s, e) \<in> set (scan_from cs t (drop i xs) i (if i = 0 then None else Some (xs ! (i - 1)))) \<longleftrightarrow>
     (left_ok xs i \<and> s = i \<and> i \<le> e \<and> walk cs t (drop i xs) 0 None = Some (p, e - i)) \<or>
     (Suc i \<le> s \<and> s < length xs \<and> left_ok xs s \<and> s \<le> e \<and>
        walk cs t (drop s xs) 0 None = Some (p, e - s))"
    by (simp only: set_append Un_iff found_mem ih)
  also have "\<dots> \<longleftrightarrow> i \<le> s \<and> s < length xs \<and> left_ok xs s \<and> s \<le> e \<and>
     walk cs t (drop s xs) 0 None = Some (p, e - s)"
    using lt by (cases "s = i") auto
  finally show ?case .
qed

lemma scan_mem:
  "(p, s, e) \<in> set (scan cs t xs) \<longleftrightarrow>
     s < length xs \<and> left_ok xs s \<and> s \<le> e \<and> walk cs t (drop s xs) 0 None = Some (p, e - s)"
  using scan_from_mem [of 0 xs p s e cs t] by (simp add: scan_def)

lemma scan_from_start_ge: "(p, s, e) \<in> set (scan_from cs t xs i prev) \<Longrightarrow> i \<le> s"
proof (induction xs arbitrary: i prev)
  case Nil
  then show ?case by simp
next
  case (Cons x xs)
  from Cons.prems have "(p, s, e) \<in> set (if left_boundary prev
      then (case walk cs t (x # xs) 0 None of None \<Rightarrow> [] | Some (q, n) \<Rightarrow> [(q, i, i + n)])
      else []) \<or> (p, s, e) \<in> set (scan_from cs t xs (Suc i) (Some x))"
    by (simp only: scan_from_Cons set_append Un_iff)
  then show ?case
  proof
    assume "(p, s, e) \<in> set (if left_boundary prev
      then (case walk cs t (x # xs) 0 None of None \<Rightarrow> [] | Some (q, n) \<Rightarrow> [(q, i, i + n)])
      else [])"
    then have "s = i" by (simp only: found_mem)
    then show ?thesis by simp
  next
    assume "(p, s, e) \<in> set (scan_from cs t xs (Suc i) (Some x))"
    from Cons.IH [OF this] show ?thesis by simp
  qed
qed

lemma scan_from_sorted:
  "sorted_wrt (\<lambda>a b. fst (snd a) < fst (snd b)) (scan_from cs t xs i prev)"
proof (induction xs arbitrary: i prev)
  case Nil
  then show ?case by simp
next
  case (Cons x xs)
  define found where "found = (if left_boundary prev
      then (case walk cs t (x # xs) 0 None of None \<Rightarrow> [] | Some (q, n) \<Rightarrow> [(q, i, i + n)])
      else [])"
  have gt: "\<forall>b\<in>set (scan_from cs t xs (Suc i) (Some x)). i < fst (snd b)"
  proof
    fix b assume b: "b \<in> set (scan_from cs t xs (Suc i) (Some x))"
    obtain p s e where "b = (p, s, e)" by (cases b)
    with b scan_from_start_ge [of p s e cs t xs "Suc i" "Some x"] show "i < fst (snd b)" by simp
  qed
  have f1: "\<forall>a\<in>set found. fst (snd a) = i"
  proof
    fix a assume a: "a \<in> set found"
    obtain p s e where "a = (p, s, e)" by (cases a)
    with a have "s = i" unfolding found_def by (simp only: found_mem)
    with \<open>a = (p, s, e)\<close> show "fst (snd a) = i" by simp
  qed
  have f2: "sorted_wrt (\<lambda>a b. fst (snd a) < fst (snd b)) found"
  proof (cases "walk cs t (x # xs) 0 None")
    case None
    then show ?thesis by (simp add: found_def)
  next
    case (Some a)
    obtain q k where "a = (q, k)" by (cases a)
    with Some show ?thesis by (simp add: found_def)
  qed
  have "scan_from cs t (x # xs) i prev = found @ scan_from cs t xs (Suc i) (Some x)"
    unfolding found_def by (rule scan_from_Cons)
  with f1 f2 gt Cons.IH [of "Suc i" "Some x"] show ?case
    by (simp add: sorted_wrt_append)
qed

subsection \<open>Reported matches\<close>

lemma extract_sound:
  assumes "(p, s, e) \<in> set (extract_keywords kp xs)"
  shows "p \<in> set (kp_keywords kp)" and "e = s + length p" and "s < length xs"
    and "valid_at (kp_case_sensitive kp) xs s p"
    and "\<forall>q\<in>set (kp_keywords kp). valid_at (kp_case_sensitive kp) xs s q \<longrightarrow> length q \<le> length p"
proof -
  define cs where "cs = kp_case_sensitive kp"
  define ks where "ks = kp_keywords kp"
  define k where "k = e - s"
  from assms have m: "(p, s, e) \<in> set (scan cs (build_trie cs ks) xs)"
    by (simp add: extract_keywords_def cs_def ks_def)
  then have s: "s < length xs" and l: "left_ok xs s" and se: "s \<le> e"
    and w: "walk cs (build_trie cs ks) (drop s xs) 0 None = Some (p, k)"
    unfolding scan_mem k_def by simp_all
  from w have kl: "k \<le> length (drop s xs)"
    and lk: "trie_lookup (build_trie cs ks) (map (fold_char cs) (take k (drop s xs))) = Some p"
    and rb: "right_boundary (drop k (drop s xs))"
    and mx: "\<forall>m\<le>length (drop s xs).
        trie_lookup (build_trie cs ks) (map (fold_char cs) (take m (drop s xs))) \<noteq> None \<and>
        right_boundary (drop m (drop s xs)) \<longrightarrow> m \<le> k"
    unfolding walk_root_iff by blast+
  from lk have f: "find (\<lambda>q. map (fold_char cs) q = map (fold_char cs) (take k (drop s xs))) ks = Some p"
    by (simp only: trie_lookup_build)
  then have pk: "p \<in> set ks" and eq: "map (fold_char cs) p = map (fold_char cs) (take k (drop s xs))"
    by (auto simp: find_Some_iff)
  from eq have "length p = length (take k (drop s xs))" by (rule map_eq_imp_length_eq)
  with kl have len: "length p = k" by simp
  from pk show "p \<in> set (kp_keywords kp)" by (simp add: ks_def)
  from se len show e: "e = s + length p" by (simp add: k_def)
  from s show "s < length xs" .
  have ro: "right_ok xs (s + k)"
    using rb by (simp add: right_boundary_drop [symmetric] add.commute)
  from kl s have "s + k \<le> length xs" by simp
  with eq len l ro show "valid_at (kp_case_sensitive kp) xs s p"
    by (simp add: valid_at_def occurs_at_def cs_def)
  show "\<forall>q\<in>set (kp_keywords kp). valid_at (kp_case_sensitive kp) xs s q \<longrightarrow> length q \<le> length p"
  proof (intro ballI impI)
    fix q assume q: "q \<in> set (kp_keywords kp)" and v: "valid_at (kp_case_sensitive kp) xs s q"
    from v have ql: "length q \<le> length (drop s xs)"
      and qe: "map (fold_char cs) (take (length q) (drop s xs)) = map (fold_char cs) q"
      and qr: "right_ok xs (s + length q)"
      by (auto simp: valid_at_def occurs_at_def cs_def)
    from q qe have "find (\<lambda>q'. map (fold_char cs) q' = map (fold_char cs) (take (length q) (drop s xs))) ks \<noteq> None"
      by (auto simp: find_None_iff ks_def)
    then have "trie_lookup (build_trie cs ks) (map (fold_char cs) (take (length q) (drop s xs))) \<noteq> None"
      by (simp add: trie_lookup_build)
    moreover have "right_boundary (drop (length q) (drop s xs))"
      using qr by (simp add: right_boundary_drop [symmetric] add.commute)
    ultimately have "length q \<le> k" using mx ql by blast
    with len show "length q \<le> length p" by simp
  qed
qed



lemma extract_sorted:
  "sorted_wrt (\<lambda>a b. fst (snd a) < fst (snd b)) (extract_keywords kp xs)"
  by (simp add: extract_keywords_def scan_def scan_from_sorted)

lemma analyze_eq:
  "analyze r xs ents nlp =
     map (\<lambda>(name, start, end).
            \<lparr>res_entity_type = entity_type r, res_start = start, res_end = end, res_score = 1\<rparr>)
         (extract_keywords (keyword_processor r) xs)"
  by (simp add: analyze_def analyze_with_def)

lemma analyze_mem:
  "m \<in> set (analyze r xs ents nlp) \<longleftrightarrow>
     (\<exists>p s e. (p, s, e) \<in> set (extract_keywords (keyword_processor r) xs) \<and>
        m = \<lparr>res_entity_type = entity_type r, res_start = s, res_end = e, res_score = 1\<rparr>)"
  unfolding analyze_eq set_map by (auto simp: image_iff) force

subsection \<open>Order of the results\<close>


lemma analyze_sorted: "sorted_wrt (\<lambda>a b. res_start a < res_start b) (analyze r xs ents nlp)"
  unfolding analyze_eq sorted_wrt_map
  by (rule sorted_wrt_mono_rel [OF _ extract_sorted]) (simp add: case_prod_beta)

subsection \<open>Scans of the examples\<close>

lemma analyze_of_extract:
  "extract_keywords (keyword_processor r) xs = ms \<Longrightarrow>
   analyze r xs ents nlp =
     map (\<lambda>(name, start, end).
            \<lparr>res_entity_type = entity_type r, res_start = start, res_end = end, res_score = 1\<rparr>) ms"
  by (simp add: analyze_eq)

lemma extract_by_flag:
  assumes "kp_keywords kp = ks"
    and "scan True (build_trie True ks) xs = a" and "scan False (build_trie False ks) xs = b"
  shows "extract_keywords kp xs = (if kp_case_sensitive kp then a else b)"
  using assms by (simp add: extract_keywords_def)

lemma cat_category_cs: "scan True (build_trie True [''Cat'']) ''Category'' = []"
  by code_simp
lemma cat_category_ci: "scan False (build_trie False [''Cat'']) ''Category'' = []"
  by code_simp
lemma cat_paren_cs: "scan True (build_trie True [''Cat'']) ''(Cat)'' = [(''Cat'', 1, 4)]"
  by code_simp
lemma cat_paren_ci: "scan False (build_trie False [''Cat'']) ''(Cat)'' = [(''Cat'', 1, 4)]"
  by code_simp
lemma new_york:
  "scan False (build_trie False [''New'', ''New York'']) ''New York'' = [(''New York'', 0, 8)]"
  by code_simp
lemma abc: "scan False (build_trie False [''a b'', ''b c'']) ''a b c'' = [(''a b'', 0, 3), (''b c'', 2, 5)]"
  by code_simp
lemma found_ci:
  "scan False (build_trie False [''TestPattern'']) ''Found testpattern here'' = [(''TestPattern'', 6, 17)]"
  by code_simp

section \<open>Word boundaries\<close>

text \<open>
  C1. Every result of analyze is the span of an occurrence of one of the patterns, and the
  character before its start and the character at its end are each absent or not a word
  character. With the single pattern Cat, the text Category has no match and the text
  (Cat) has exactly one, from offset 1 to offset 4, in either case mode.
\<close>

theorem analyze_word_boundary:
  "(\<forall>m\<in>set (analyze r txt ents nlp).
      left_ok txt (res_start m) \<and> right_ok txt (res_end m) \<and>
      (\<exists>p\<in>set (kp_keywords (keyword_processor r)).
         occurs_at (kp_case_sensitive (keyword_processor r)) txt (res_start m) p \<and>
         res_end m = res_start m + length p)) \<and>
   (kp_keywords (keyword_processor r) = [''Cat''] \<longrightarrow>
      analyze r ''Category'' ents nlp = [] \<and>
      analyze r ''(Cat)'' ents nlp =
        [\<lparr>res_entity_type = entity_type r, res_start = 1, res_end = 4, res_score = 1\<rparr>])"
proof (intro conjI ballI impI)
  fix m assume "m \<in> set (analyze r txt ents nlp)"
  then obtain p s e where pse: "(p, s, e) \<in> set (extract_keywords (keyword_processor r) txt)"
    and m: "m = \<lparr>res_entity_type = entity_type r, res_start = s, res_end = e, res_score = 1\<rparr>"
    unfolding analyze_mem by blast
  from extract_sound [OF pse] have p: "p \<in> set (kp_keywords (keyword_processor r))"
    and e: "e = s + length p" and v: "valid_at (kp_case_sensitive (keyword_processor r)) txt s p"
    by blast+
  from v m show "left_ok txt (res_start m)" by (simp add: valid_at_def)
  from v m e show "right_ok txt (res_end m)" by (simp add: valid_at_def)
  from v m e p show "\<exists>p\<in>set (kp_keywords (keyword_processor r)).
         occurs_at (kp_case_sensitive (keyword_processor r)) txt (res_start m) p \<and>
         res_end m = res_start m + length p"
    by (auto simp: valid_at_def)
next
  assume k: "kp_keywords (keyword_processor r) = [''Cat'']"
  from extract_by_flag [OF k cat_category_cs cat_category_ci]
  show "analyze r ''Category'' ents nlp = []" by (simp add: analyze_eq)
  from extract_by_flag [OF k cat_paren_cs cat_paren_ci]
  show "analyze r ''(Cat)'' ents nlp =
        [\<lparr>res_entity_type = entity_type r, res_start = 1, res_end = 4, res_score = 1\<rparr>]"
    by (simp add: analyze_eq)
qed

theorem analyze_word_boundary_witness:
  "\<lparr>res_entity_type = ''ANIMAL'', res_start = 1, res_end = 4, res_score = 1\<rparr>
     \<in> set (analyze (recognizer_with ''ANIMAL'' ''name'' False [''Cat'']) ''(Cat)'' [] ()) \<and>
   left_ok ''(Cat)'' 1 \<and> right_ok ''(Cat)'' 4 \<and> occurs_at False ''(Cat)'' 1 ''Cat'' \<and>
   analyze (recognizer_with ''ANIMAL'' ''name'' False [''Cat'']) ''Category'' [] () = []"
proof -
  let ?r = "recognizer_with ''ANIMAL'' ''name'' False [''Cat'']"
  let ?m = "\<lparr>res_entity_type = ''ANIMAL'', res_start = 1, res_end = 4, res_score = 1\<rparr>"
  note t = analyze_word_boundary [of ?r "''(Cat)''" "[]" "()"]
  have k: "kp_keywords (keyword_processor ?r) = [''Cat'']" by (simp add: recognizer_with_def)
  with t have a: "analyze ?r ''(Cat)'' [] () = [?m]" and c: "analyze ?r ''Category'' [] () = []"
    by (simp_all add: recognizer_with_def)
  then have mem: "?m \<in> set (analyze ?r ''(Cat)'' [] ())" by simp
  with t have "left_ok ''(Cat)'' (res_start ?m) \<and> right_ok ''(Cat)'' (res_end ?m) \<and>
      (\<exists>p\<in>set (kp_keywords (keyword_processor ?r)).
         occurs_at (kp_case_sensitive (keyword_processor ?r)) ''(Cat)'' (res_start ?m) p \<and>
         res_end ?m = res_start ?m + length p)"
    by blast
  then have "left_ok ''(Cat)'' 1" "right_ok ''(Cat)'' 4" "occurs_at False ''(Cat)'' 1 ''Cat''"
    by (simp_all add: recognizer_with_def)
  with mem c show ?thesis by (intro conjI)
qed

section \<open>The longest match at a start\<close>



section \<open>Matches at different starts\<close>




section \<open>Case modes\<close>



section \<open>Determinism and order\<close>

text \<open>
  C6. The results of analyze are in ascending order of start offset, ties broken by
  ascending end offset, and they are a function of the keyword processor, the entity type
  and the text alone: a call with the same recognizer state and the same text returns the
  same sequence.
\<close>

theorem analyze_deterministic_ordered:
  "sorted_wrt (\<lambda>a b. res_start a < res_start b \<or> (res_start a = res_start b \<and> res_end a \<le> res_end b))
     (analyze r txt ents nlp) \<and>
   (keyword_processor r' = keyword_processor r \<and> entity_type r' = entity_type r \<longrightarrow>
      analyze r' txt ents nlp = analyze r txt ents nlp)"
proof
  show "sorted_wrt (\<lambda>a b. res_start a < res_start b \<or> (res_start a = res_start b \<and> res_end a \<le> res_end b))
     (analyze r txt ents nlp)"
    by (rule sorted_wrt_mono_rel [OF _ analyze_sorted]) simp
  show "keyword_processor r' = keyword_processor r \<and> entity_type r' = entity_type r \<longrightarrow>
      analyze r' txt ents nlp = analyze r txt ents nlp"
    by (simp add: analyze_eq)
qed

theorem analyze_deterministic_ordered_witness:
  "analyze (recognizer_with ''TERM'' ''word'' False [''a'', ''a a'']) ''a a a'' [] () =
     analyze (recognizer_with ''TERM'' ''name'' False [''a'', ''a a'']) ''a a a'' [] () \<and>
   sorted_wrt (\<lambda>a b. res_start a < res_start b \<or> (res_start a = res_start b \<and> res_end a \<le> res_end b))
     (analyze (recognizer_with ''TERM'' ''name'' False [''a'', ''a a'']) ''a a a'' [] ())"
  using analyze_deterministic_ordered [of "recognizer_with ''TERM'' ''name'' False [''a'', ''a a'']"
      "''a a a''" "[]" "()" "recognizer_with ''TERM'' ''word'' False [''a'', ''a a'']"]
  by (simp add: recognizer_with_def)

section \<open>Deduplication of the loaded patterns\<close>

text \<open>
  C7. When pattern loading succeeds, its result is the concatenation, in the order of the
  sources, of the entries each source yields, with every later duplicate removed and the
  first occurrence of each string kept; the entries are trimmed and not empty, and no
  string occurs twice. Equality of strings is exact and the case-sensitivity flag is no
  argument of the loader: built in case-insensitive mode from two sources that hold
  Apple and apple, and Apple and Banana, the recognizer gets Apple, apple and Banana.
\<close>

theorem load_patterns_dedup:
  "(load_patterns fs col files tr = (Inr ps, tr') \<longrightarrow>
      ps = keep_first (concat (map (\<lambda>f. projr (fst (load_file fs col f []))) files)) \<and>
      distinct ps \<and> (\<forall>e\<in>set ps. str_strip e = e \<and> e \<noteq> [])) \<and>
   kp_keywords (keyword_processor (projr (fst (init two_source_files
      [Str ''first.txt'', Str ''second.txt''] ''FRUIT'' None ''name'' False [])))) =
     [''Apple'', ''apple'', ''Banana'']"
proof (intro conjI impI)
  assume a: "load_patterns fs col files tr = (Inr ps, tr')"
  from load_patterns_Inr [OF a]
  show "ps = keep_first (concat (map (\<lambda>f. projr (fst (load_file fs col f []))) files))"
    and "distinct ps" and "\<forall>e\<in>set ps. str_strip e = e \<and> e \<noteq> []" .
next
  show "kp_keywords (keyword_processor (projr (fst (init two_source_files
      [Str ''first.txt'', Str ''second.txt''] ''FRUIT'' None ''name'' False [])))) =
     [''Apple'', ''apple'', ''Banana'']"
    by (simp add: two_source_init)
qed

theorem load_patterns_dedup_witness:
  "load_patterns two_source_files ''name'' [Str ''first.txt'', Str ''second.txt''] [] =
     (Inr [''Apple'', ''apple'', ''Banana''],
      [PathExists ''first.txt'', OpenFile ''first.txt'',
       PathExists ''second.txt'', OpenFile ''second.txt'']) \<and>
   [''Apple'', ''apple'', ''Banana''] =
     keep_first (concat (map (\<lambda>f. projr (fst (load_file two_source_files ''name'' f [])))
       [Str ''first.txt'', Str ''second.txt''])) \<and>
   distinct [''Apple'', ''apple'', ''Banana''] \<and>
   str_strip ''Apple'' = ''Apple'' \<and> str_strip ''apple'' = ''apple'' \<and>
   str_strip ''Banana'' = ''Banana''"
proof -
  have h: "load_patterns two_source_files ''name'' [Str ''first.txt'', Str ''second.txt''] [] =
     (Inr [''Apple'', ''apple'', ''Banana''],
      [PathExists ''first.txt'', OpenFile ''first.txt'',
       PathExists ''second.txt'', OpenFile ''second.txt''])"
    by (rule two_source_patterns)
  from h load_patterns_dedup [of two_source_files "''name''" "[Str ''first.txt'', Str ''second.txt'']" "[]"
      "[''Apple'', ''apple'', ''Banana'']"
      "[PathExists ''first.txt'', OpenFile ''first.txt'', PathExists ''second.txt'', OpenFile ''second.txt'']"]
  have c: "[''Apple'', ''apple'', ''Banana''] =
     keep_first (concat (map (\<lambda>f. projr (fst (load_file two_source_files ''name'' f [])))
       [Str ''first.txt'', Str ''second.txt'']))"
    and d: "distinct [''Apple'', ''apple'', ''Banana'']"
    and t: "\<forall>e\<in>set [''Apple'', ''apple'', ''Banana'']. str_strip e = e \<and> e \<noteq> []"
    by blast+
  from t have "str_strip ''Apple'' = ''Apple''" "str_strip ''apple'' = ''apple''"
    "str_strip ''Banana'' = ''Banana''" by simp_all
  with h c d show ?thesis by (intro conjI)
qed

section \<open>The allowlist filter\<close>

text \<open>
  C8. The allowlist filter keeps, in their order, exactly the patterns whose comparison
  key (the string itself in case-sensitive mode, its lower case otherwise) is not the
  comparison key of an allowlist entry, and a recognizer that was built holds the
  loaded patterns so filtered. In the default case-insensitive mode, a pattern file with
  Apple, Apple and Orange and an allowlist with apple give the pattern set Orange.
\<close>

theorem allowlist_filtering:
  "filtered_patterns cs patterns allowlist =
     filter (\<lambda>p. comparison_key cs p \<notin> comparison_key cs ` allowlist) patterns \<and>
   (init fs pf et af col cs tr = (Inr r, tr') \<longrightarrow>
      (\<exists>al ps tr1.
         load_allowlist fs col (case af of None \<Rightarrow> [] | Some fl \<Rightarrow> fl) tr = (Inr al, tr1) \<and>
         load_patterns fs col pf tr1 = (Inr ps, tr') \<and>
         kp_keywords (keyword_processor r) =
           filter (\<lambda>p. comparison_key cs p \<notin> comparison_key cs ` al) ps)) \<and>
   kp_keywords (keyword_processor (projr (fst (init fruit_files
      [Str ''patterns.txt''] ''FRUIT'' (Some [Str ''allow.txt'']) ''name'' False [])))) = [''Orange'']"
proof (intro conjI impI)
  show "filtered_patterns cs patterns allowlist =
     filter (\<lambda>p. comparison_key cs p \<notin> comparison_key cs ` allowlist) patterns"
    by (rule filtered_patterns_key)
next
  assume "init fs pf et af col cs tr = (Inr r, tr')"
  from init_Inr [OF this]
  show "\<exists>al ps tr1.
         load_allowlist fs col (case af of None \<Rightarrow> [] | Some fl \<Rightarrow> fl) tr = (Inr al, tr1) \<and>
         load_patterns fs col pf tr1 = (Inr ps, tr') \<and>
         kp_keywords (keyword_processor r) =
           filter (\<lambda>p. comparison_key cs p \<notin> comparison_key cs ` al) ps"
    by (simp only: filtered_patterns_key)
next
  show "kp_keywords (keyword_processor (projr (fst (init fruit_files
      [Str ''patterns.txt''] ''FRUIT'' (Some [Str ''allow.txt'']) ''name'' False [])))) = [''Orange'']"
    by (simp add: fruit_init)
qed

theorem allowlist_filtering_witness:
  "init fruit_files [Str ''patterns.txt''] ''FRUIT'' (Some [Str ''allow.txt'']) ''name'' False [] =
     (Inr \<lparr>supported_entities = [''FRUIT''], supported_language = ''en'', entity_type = ''FRUIT'',
           csv_column = ''name'', case_sensitive = False,
           keyword_processor = \<lparr>kp_case_sensitive = False, kp_keywords = [''Orange'']\<rparr>\<rparr>,
      [PathExists ''allow.txt'', OpenFile ''allow.txt'',
       PathExists ''patterns.txt'', OpenFile ''patterns.txt'']) \<and>
   (\<exists>al ps tr1.
      load_allowlist fruit_files ''name'' [Str ''allow.txt''] [] = (Inr al, tr1) \<and>
      load_patterns fruit_files ''name'' [Str ''patterns.txt''] tr1 =
        (Inr ps, [PathExists ''allow.txt'', OpenFile ''allow.txt'',
                  PathExists ''patterns.txt'', OpenFile ''patterns.txt'']) \<and>
      [''Orange''] = filter (\<lambda>p. comparison_key False p \<notin> comparison_key False ` al) ps)"
  using allowlist_filtering [of False "[]" "{}" fruit_files "[Str ''patterns.txt'']" "''FRUIT''"
      "Some [Str ''allow.txt'']" "''name''" "[]"
      "\<lparr>supported_entities = [''FRUIT''], supported_language = ''en'', entity_type = ''FRUIT'',
        csv_column = ''name'', case_sensitive = False,
        keyword_processor = \<lparr>kp_case_sensitive = False, kp_keywords = [''Orange'']\<rparr>\<rparr>"
      "[PathExists ''allow.txt'', OpenFile ''allow.txt'', PathExists ''patterns.txt'', OpenFile ''patterns.txt'']"]
    fruit_init
  by simp

section \<open>Construction with an empty final pattern set\<close>

text \<open>
  C4, as the code has it. Construction fails with the error of the empty configuration
  exactly when the list of pattern sources is empty. When that list is not empty and the
  allowlist and the patterns load, construction succeeds and the recognizer holds the
  filtered patterns, also when the allowlist has removed every one of them.
\<close>

theorem init_outcomes:
  "(fst (init fs pf et af col cs tr) = Inl ValueError_patterns_files_empty \<longleftrightarrow> pf = []) \<and>
   (pf \<noteq> [] \<longrightarrow>
    load_allowlist fs col (case af of None \<Rightarrow> [] | Some fl \<Rightarrow> fl) tr = (Inr al, tr1) \<longrightarrow>
    load_patterns fs col pf tr1 = (Inr ps, tr2) \<longrightarrow>
    init fs pf et af col cs tr =
      (Inr \<lparr>supported_entities = [et], supported_language = ''en'', entity_type = et,
            csv_column = col, case_sensitive = cs,
            keyword_processor =
              \<lparr>kp_case_sensitive = cs, kp_keywords = filtered_patterns cs ps al\<rparr>\<rparr>, tr2))"
  using init_empty_error_iff [of fs pf et af col cs tr] init_success [of pf fs col af tr al tr1 ps tr2 et cs]
  by blast

theorem init_outcomes_witness:
  "[Str ''patterns.txt''] \<noteq> [] \<and>
   fst (init fruit_files [Str ''patterns.txt''] ''FRUIT'' (Some [Str ''allow.txt'']) ''name'' False [])
     \<noteq> Inl ValueError_patterns_files_empty \<and>
   init fruit_files [Str ''patterns.txt''] ''FRUIT'' (Some [Str ''allow.txt'']) ''name'' False [] =
     (Inr \<lparr>supported_entities = [''FRUIT''], supported_language = ''en'', entity_type = ''FRUIT'',
           csv_column = ''name'', case_sensitive = False,
           keyword_processor =
             \<lparr>kp_case_sensitive = False,
              kp_keywords = filtered_patterns False [''Apple'', ''Orange''] {''apple''}\<rparr>\<rparr>,
      [PathExists ''allow.txt'', OpenFile ''allow.txt'',
       PathExists ''patterns.txt'', OpenFile ''patterns.txt''])"
  using init_outcomes [of fruit_files "[Str ''patterns.txt'']" "''FRUIT''" "Some [Str ''allow.txt'']"
      "''name''" False "[]" "{''apple''}" "[PathExists ''allow.txt'', OpenFile ''allow.txt'']"
      "[''Apple'', ''Orange'']"
      "[PathExists ''allow.txt'', OpenFile ''allow.txt'', PathExists ''patterns.txt'', OpenFile ''patterns.txt'']"]
    fruit_allowlist fruit_patterns
  by simp

text \<open>
  C4, as stated, fails: the only loaded pattern, Apple, is removed by the allowlist
  entry apple in case-insensitive mode, and construction returns a recognizer with no
  keyword instead of an error.
\<close>

theorem init_empty_pattern_set_counterexample:
  "load_allowlist allowlisted_files ''name'' [Str ''allow.txt''] [] =
     (Inr {''apple''}, [PathExists ''allow.txt'', OpenFile ''allow.txt'']) \<and>
   load_patterns allowlisted_files ''name'' [Str ''patterns.txt'']
     [PathExists ''allow.txt'', OpenFile ''allow.txt''] =
     (Inr [''Apple''],
      [PathExists ''allow.txt'', OpenFile ''allow.txt'',
       PathExists ''patterns.txt'', OpenFile ''patterns.txt'']) \<and>
   filtered_patterns False [''Apple''] {''apple''} = [] \<and>
   init allowlisted_files [Str ''patterns.txt''] ''FRUIT'' (Some [Str ''allow.txt'']) ''name'' False [] =
     (Inr \<lparr>supported_entities = [''FRUIT''], supported_language = ''en'', entity_type = ''FRUIT'',
           csv_column = ''name'', case_sensitive = False,
           keyword_processor = \<lparr>kp_case_sensitive = False, kp_keywords = []\<rparr>\<rparr>,
      [PathExists ''allow.txt'', OpenFile ''allow.txt'',
       PathExists ''patterns.txt'', OpenFile ''patterns.txt''])"
  by (simp add: init_def allowlisted_allowlist allowlisted_patterns allowlisted_filtered
      KeywordProcessor_def add_keywords_from_list_def)

section \<open>Construction with no pattern source\<close>

text \<open>
  C9. Building with an empty list of pattern sources fails with the error of the empty
  configuration, whatever the other arguments are, and the log of file-system accesses is
  returned as it was given: no path is checked for existence and no file is opened.
\<close>

theorem init_empty_sources:
  "init fs [] etype allowlist_files column cs tr = (Inl ValueError_patterns_files_empty, tr)"
  by (simp add: init_def)

section \<open>The requested entity types\<close>

text \<open>
  C10. The result of analyze does not depend on the entities argument (nor on the NLP
  artifacts): for the same recognizer and text, any two values of these arguments give
  the same list of results, whatever the library's keyword extraction returns.
\<close>

theorem analyze_ignores_entities:
  "analyze_with extract self text entities1 nlp1 = analyze_with extract self text entities2 nlp2"
  by (simp add: analyze_with_def)

end
